theory Spec2Isabelle
  imports Main "HOL-Library.Word"
begin

unbundle bit_operations_syntax

section \<open>Data model of gi/keep-alive.cpp\<close>

text \<open>
  Pointers (\<^verbatim>\<open>JSObject*\<close>, \<^verbatim>\<open>void*\<close>, the function pointer
  \<^verbatim>\<open>GjsUnrootedFunc\<close>) are 64-bit words, 0 being \<^verbatim>\<open>NULL\<close>;
  \<^verbatim>\<open>guint\<close> is a 32-bit word, so \<^verbatim>\<open>GPOINTER_TO_UINT\<close> keeps the
  low 32 bits of a pointer.
\<close>

type_synonym ptr = "64 word"
type_synonym guint = "32 word"

text \<open>\<^verbatim>\<open>struct Child\<close>: the handle, the notifier and the opaque data pointer.\<close>

record Child =
  child :: ptr
  notify :: ptr
  data :: ptr

definition GPOINTER_TO_UINT :: "ptr \<Rightarrow> guint" where
  "GPOINTER_TO_UINT p = ucast p"

definition child_hash :: "Child \<Rightarrow> guint" where
  "child_hash v =
     GPOINTER_TO_UINT (notify v) XOR GPOINTER_TO_UINT (child v) XOR GPOINTER_TO_UINT (data v)"

definition child_equal :: "Child \<Rightarrow> Child \<Rightarrow> bool" where
  "child_equal child1 child2 \<longleftrightarrow>
     data child1 = data child2 \<and> child child1 = child child2 \<and> notify child1 = notify child2"

section \<open>The backing hash table\<close>

text \<open>
  \<^verbatim>\<open>priv->children\<close> is a GLib \<^verbatim>\<open>GHashTable\<close> created by
  \<^verbatim>\<open>g_hash_table_new_full(child_hash, child_equal, NULL, child_free)\<close> and used as a
  set: key and value of a node are the same \<^verbatim>\<open>Child*\<close>. GLib keeps with every
  node the hash its key had when the node was inserted, and a lookup accepts a node when that
  stored hash equals the hash of the lookup key and the equality function agrees. Each
  \<^verbatim>\<open>Child\<close> is owned by exactly one node, so a node holds the stored hash and the
  current contents of its \<^verbatim>\<open>Child\<close>. The list is the order in which an iterator
  visits the nodes; GLib leaves that order unspecified (here a new node comes last) and
  the properties below are stated for every table, whatever its order.
\<close>

record node =
  node_hash :: guint
  node_key :: Child

type_synonym GHashTable = "node list"

definition node_matches :: "node \<Rightarrow> Child \<Rightarrow> bool" where
  "node_matches n key \<longleftrightarrow> node_hash n = child_hash key \<and> child_equal (node_key n) key"

fun g_hash_table_lookup :: "GHashTable \<Rightarrow> Child \<Rightarrow> Child option" where
  "g_hash_table_lookup [] key = None"
| "g_hash_table_lookup (n # t) key =
     (if node_matches n key then Some (node_key n) else g_hash_table_lookup t key)"

text \<open>Insertion keeping the new key: an equal node gets the new key, otherwise a node is added.\<close>

definition new_node :: "Child \<Rightarrow> node" where
  "new_node key = \<lparr>node_hash = child_hash key, node_key = key\<rparr>"

fun g_hash_table_insert_node :: "GHashTable \<Rightarrow> Child \<Rightarrow> GHashTable" where
  "g_hash_table_insert_node [] key = [new_node key]"
| "g_hash_table_insert_node (n # t) key =
     (if node_matches n key then n\<lparr>node_key := key\<rparr> # t
      else n # g_hash_table_insert_node t key)"

fun g_hash_table_remove_node :: "GHashTable \<Rightarrow> Child \<Rightarrow> GHashTable" where
  "g_hash_table_remove_node [] key = []"
| "g_hash_table_remove_node (n # t) key =
     (if node_matches n key then t else n # g_hash_table_remove_node t key)"

text \<open>
  \<open>g_hash_table_replace\<close> and \<open>g_hash_table_remove\<close> return the new table and the old
  value that the table hands to its value destroy function (\<open>child_free\<close>), if any.
\<close>

definition g_hash_table_replace :: "GHashTable \<Rightarrow> Child \<Rightarrow> GHashTable \<times> Child option" where
  "g_hash_table_replace t key = (g_hash_table_insert_node t key, g_hash_table_lookup t key)"

definition g_hash_table_remove :: "GHashTable \<Rightarrow> Child \<Rightarrow> GHashTable \<times> Child option" where
  "g_hash_table_remove t key = (g_hash_table_remove_node t key, g_hash_table_lookup t key)"

section \<open>The registry and the process around it\<close>

record KeepAlive =
  children :: GHashTable
  inside_finalize :: bool
  inside_trace :: bool

text \<open>
  What the functions do to the outside, in order: a critical warning of
  \<^verbatim>\<open>g_return_if_fail\<close>, a node taken out of the table by
  \<^verbatim>\<open>g_hash_table_iter_steal\<close>, a notifier called with (handle, data), a
  \<^verbatim>\<open>Child\<close> released by \<open>child_free\<close>, the table destroyed, the
  \<^verbatim>\<open>KeepAlive\<close> released.
\<close>

datatype event =
  Critical string
| Stolen Child
| Notified ptr ptr ptr
| ChildFreed Child
| TableDestroyed
| PrivFreed

text \<open>The ways the process is terminated: \<^verbatim>\<open>g_assert\<close>, \<^verbatim>\<open>g_error\<close>,
  a critical warning when the process runs with critical warnings made fatal, and reading
  through a \<^verbatim>\<open>NULL\<close> object pointer.\<close>

datatype fatal =
  AssertionFailed string
| GError string
| FatalCritical string
| NullDereference

text \<open>
  \<open>privs\<close> is \<^verbatim>\<open>JS_GetPrivate\<close> (\<open>None\<close> for a \<^verbatim>\<open>NULL\<close> private,
  as the prototype has), \<open>slot\<close> is the value of \<^verbatim>\<open>GJS_GLOBAL_SLOT_KEEP_ALIVE\<close>
  of a context when it is an object, \<open>fatal_criticals\<close> says whether GLib aborts on a
  critical warning (\<^verbatim>\<open>G_DEBUG=fatal-criticals\<close>; off by default).
\<close>

record world =
  privs :: "ptr \<rightharpoonup> KeepAlive"
  slot :: "ptr \<rightharpoonup> ptr"
  events :: "event list"
  fatal_criticals :: bool

text \<open>The failure branch of \<^verbatim>\<open>g_return_if_fail(expr)\<close>, with the checks compiled
  in as GLib does by default: the warning is logged and the calling function returns,
  unless critical warnings are fatal.\<close>

definition g_return_if_fail_warning :: "world \<Rightarrow> string \<Rightarrow> fatal + world" where
  "g_return_if_fail_warning w expr =
     (if fatal_criticals w then Inl (FatalCritical expr)
      else Inr (w\<lparr>events := events w @ [Critical expr]\<rparr>))"

definition child_free :: "Child \<Rightarrow> event list" where
  "child_free c = [ChildFreed c]"

definition value_destroy :: "Child option \<Rightarrow> event list" where
  "value_destroy old = (case old of None \<Rightarrow> [] | Some v \<Rightarrow> child_free v)"

subsection \<open>keep\_alive\_finalize\<close>

text \<open>
  The body of a notifier is code outside this file: its call is recorded as the event
  \<open>Notified\<close>, after the event of the steal and before the event of the release.
  The loop runs on the table of the registry with \<open>inside_finalize\<close> set, and every
  node the iterator reaches is stolen, so the table it leaves is what it has not visited.
\<close>

fun finalize_loop :: "GHashTable \<Rightarrow> event list \<Rightarrow> GHashTable \<times> event list" where
  "finalize_loop [] evs = ([], evs)"
| "finalize_loop (n # t) evs =
     (let c = node_key n;
          evs1 = evs @ [Stolen c];
          evs2 = (if notify c \<noteq> 0 then evs1 @ [Notified (notify c) (child c) (data c)] else evs1)
      in finalize_loop t (evs2 @ child_free c))"

definition g_hash_table_destroy :: "GHashTable \<Rightarrow> event list" where
  "g_hash_table_destroy t = concat (map (\<lambda>n. child_free (node_key n)) t) @ [TableDestroyed]"

definition keep_alive_finalize :: "world \<Rightarrow> ptr \<Rightarrow> world" where
  "keep_alive_finalize w obj =
     (case privs w obj of
        None \<Rightarrow> w
      | Some priv \<Rightarrow>
          (let priv1 = priv\<lparr>inside_finalize := True\<rparr> in
           case finalize_loop (children priv1) (events w) of
             (t, evs) \<Rightarrow>
               w\<lparr>privs := (privs w)(obj := None),
                 events := evs @ g_hash_table_destroy t @ [PrivFreed]\<rparr>))"

subsection \<open>keep\_alive\_trace\<close>

text \<open>
  The tracer is the collector's visitor: \<open>tracer a\<close> is the address at which the object
  now at \<open>a\<close> lives after the pass (\<open>a\<close> itself when it does not move).
  \<open>trace_loop\<close> carries the nodes left in the table behind the iterator and the list
  \<^verbatim>\<open>children_to_reinsert\<close>.
\<close>

fun trace_loop ::
  "(ptr \<Rightarrow> ptr) \<Rightarrow> GHashTable \<Rightarrow> GHashTable \<Rightarrow> Child list \<Rightarrow> event list
   \<Rightarrow> GHashTable \<times> Child list \<times> event list" where
  "trace_loop tracer [] kept children_to_reinsert evs = (kept, children_to_reinsert, evs)"
| "trace_loop tracer (n # t) kept children_to_reinsert evs =
     (let old_key = child (node_key n);
          c = (node_key n)\<lparr>child := tracer old_key\<rparr>
      in if child c \<noteq> old_key
         then trace_loop tracer t kept (c # children_to_reinsert) (evs @ [Stolen c])
         else trace_loop tracer t (kept @ [n\<lparr>node_key := c\<rparr>]) children_to_reinsert evs)"

definition reinsert :: "Child \<Rightarrow> GHashTable \<Rightarrow> GHashTable \<times> Child option" where
  "reinsert c t = g_hash_table_replace t c"

fun g_slist_foreach_reinsert ::
  "Child list \<Rightarrow> GHashTable \<Rightarrow> event list \<Rightarrow> GHashTable \<times> event list" where
  "g_slist_foreach_reinsert [] t evs = (t, evs)"
| "g_slist_foreach_reinsert (c # cs) t evs =
     (case reinsert c t of (t', old) \<Rightarrow> g_slist_foreach_reinsert cs t' (evs @ value_destroy old))"

definition keep_alive_trace :: "(ptr \<Rightarrow> ptr) \<Rightarrow> world \<Rightarrow> ptr \<Rightarrow> fatal + world" where
  "keep_alive_trace tracer w obj =
     (case privs w obj of
        None \<Rightarrow> Inr w
      | Some priv \<Rightarrow>
          if inside_trace priv then Inl (AssertionFailed ''!priv->inside_trace'')
          else
            (let priv1 = priv\<lparr>inside_trace := True\<rparr> in
             case trace_loop tracer (children priv1) [] [] (events w) of
               (kept, children_to_reinsert, evs) \<Rightarrow>
                 (case g_slist_foreach_reinsert children_to_reinsert kept evs of
                    (t, evs') \<Rightarrow>
                      Inr (w\<lparr>privs := (privs w)(obj \<mapsto> priv1\<lparr>children := t, inside_trace := False\<rparr>),
                            events := evs'\<rparr>))))"

subsection \<open>gjs\_keep\_alive\_add\_child and gjs\_keep\_alive\_remove\_child\<close>

definition gjs_keep_alive_add_child :: "world \<Rightarrow> ptr \<Rightarrow> ptr \<Rightarrow> ptr \<Rightarrow> ptr \<Rightarrow> fatal + world" where
  "gjs_keep_alive_add_child w keep_alive notify_func obj data_ptr =
     (if keep_alive = 0 then Inl (AssertionFailed ''keep_alive != NULL'')
      else case privs w keep_alive of
        None \<Rightarrow> Inl (AssertionFailed ''priv != NULL'')
      | Some priv \<Rightarrow>
          if inside_trace priv then g_return_if_fail_warning w ''!priv->inside_trace''
          else if inside_finalize priv then g_return_if_fail_warning w ''!priv->inside_finalize''
          else
            (let c = \<lparr>child = obj, notify = notify_func, data = data_ptr\<rparr> in
             if g_hash_table_lookup (children priv) c \<noteq> None
             then g_return_if_fail_warning w
                    ''g_hash_table_lookup(priv->children, child) == NULL''
             else
               (case g_hash_table_replace (children priv) c of
                  (t, old) \<Rightarrow>
                    Inr (w\<lparr>privs := (privs w)(keep_alive \<mapsto> priv\<lparr>children := t\<rparr>),
                          events := events w @ value_destroy old\<rparr>))))"

definition gjs_keep_alive_remove_child :: "world \<Rightarrow> ptr \<Rightarrow> ptr \<Rightarrow> ptr \<Rightarrow> ptr \<Rightarrow> fatal + world" where
  "gjs_keep_alive_remove_child w keep_alive notify_func obj data_ptr =
     (if keep_alive = 0 then Inl (AssertionFailed ''keep_alive != NULL'')
      else case privs w keep_alive of
        None \<Rightarrow> Inl (AssertionFailed ''priv != NULL'')
      | Some priv \<Rightarrow>
          if inside_trace priv then g_return_if_fail_warning w ''!priv->inside_trace''
          else if inside_finalize priv then g_return_if_fail_warning w ''!priv->inside_finalize''
          else
            (let c = \<lparr>child = obj, notify = notify_func, data = data_ptr\<rparr> in
             case g_hash_table_remove (children priv) c of
               (t, old) \<Rightarrow>
                 Inr (w\<lparr>privs := (privs w)(keep_alive \<mapsto> priv\<lparr>children := t\<rparr>),
                       events := events w @ value_destroy old\<rparr>)))"

subsection \<open>The iterator\<close>

text \<open>
  A \<^verbatim>\<open>GjsKeepAliveIter\<close> is the list of nodes the hash iterator has not visited yet.
  \<open>gjs_keep_alive_iterator_next\<close> returns the advanced iterator and, when the result is
  true, the two out parameters.
\<close>

definition gjs_keep_alive_iterator_init :: "world \<Rightarrow> ptr \<Rightarrow> fatal + GHashTable" where
  "gjs_keep_alive_iterator_init w keep_alive =
     (if keep_alive = 0 then Inl NullDereference
      else case privs w keep_alive of
        None \<Rightarrow> Inl (AssertionFailed ''priv != NULL'')
      | Some priv \<Rightarrow> Inr (children priv))"

fun gjs_keep_alive_iterator_next :: "GHashTable \<Rightarrow> ptr \<Rightarrow> GHashTable \<times> (ptr \<times> ptr) option" where
  "gjs_keep_alive_iterator_next [] notify_func = ([], None)"
| "gjs_keep_alive_iterator_next (n # iter) notify_func =
     (if notify (node_key n) \<noteq> notify_func then gjs_keep_alive_iterator_next iter notify_func
      else (iter, Some (child (node_key n), data (node_key n))))"

text \<open>
  Modelled from the spec: \<open>iterate(notifierFilter)\<close> is the loop a caller of the two
  iterator functions runs (the callers are not in this file): initialise, then call
  \<open>gjs_keep_alive_iterator_next\<close> until it returns false, collecting the
  (handle, data) pairs it hands out.
\<close>

function iterate_from :: "GHashTable \<Rightarrow> ptr \<Rightarrow> (ptr \<times> ptr) list" where
  "iterate_from iter notify_func =
     (case gjs_keep_alive_iterator_next iter notify_func of
        (iter', None) \<Rightarrow> []
      | (iter', Some out) \<Rightarrow> out # iterate_from iter' notify_func)"
  by pat_completeness auto
termination
proof (relation "measure (\<lambda>(iter, notify_func). length iter)")
  show "wf (measure (\<lambda>(iter, notify_func). length iter))"
    by simp
next
  fix iter :: GHashTable and notify_func :: ptr and iter' y out
  assume p: "(iter', y) = gjs_keep_alive_iterator_next iter notify_func" and y: "y = Some out"
  have "gjs_keep_alive_iterator_next it f = (it', Some z) \<Longrightarrow> length it' < length it"
    for it f it' z
    by (induction it) (auto split: if_splits)
  with p y have "length iter' < length iter"
    by metis
  then show "((iter', notify_func), (iter, notify_func)) \<in> measure (\<lambda>(iter, notify_func). length iter)"
    by simp
qed

declare iterate_from.simps [simp del]

definition iterate :: "world \<Rightarrow> ptr \<Rightarrow> ptr \<Rightarrow> fatal + (ptr \<times> ptr) list" where
  "iterate w keep_alive notify_func =
     (case gjs_keep_alive_iterator_init w keep_alive of
        Inl e \<Rightarrow> Inl e
      | Inr iter \<Rightarrow> Inr (iterate_from iter notify_func))"

subsection \<open>The registry of a context\<close>

text \<open>
  The answers of the JavaScript engine to the calls of \<open>gjs_keep_alive_new\<close>:
  \<^verbatim>\<open>gjs_get_import_global\<close>, \<^verbatim>\<open>JS_HasProperty\<close> (\<open>None\<close> when the
  call fails, otherwise whether the class is already on the global),
  \<^verbatim>\<open>JS_InitClass\<close> and \<^verbatim>\<open>JS_NewObject\<close>.
\<close>

record engine =
  import_global :: ptr
  has_property :: "bool option"
  init_class :: ptr
  new_object :: ptr

definition new_priv :: KeepAlive where
  "new_priv = \<lparr>children = [], inside_finalize = False, inside_trace = False\<rparr>"

definition gjs_keep_alive_new :: "engine \<Rightarrow> world \<Rightarrow> ptr \<Rightarrow> fatal + world \<times> ptr" where
  "gjs_keep_alive_new js w context =
     (if context = 0 then Inl (AssertionFailed ''context != NULL'')
      else if import_global js = 0 then Inl (AssertionFailed ''global != NULL'')
      else case has_property js of
        None \<Rightarrow> Inr (w, 0)
      | Some found \<Rightarrow>
          if \<not> found \<and> init_class js = 0 then Inl (GError ''Can't init class'')
          else
            (let keep_alive = new_object js in
             if keep_alive = 0 then Inl (GError ''Failed to create keep_alive object'')
             else if privs w keep_alive \<noteq> None
             then Inl (AssertionFailed ''priv_from_js(context, keep_alive) == NULL'')
             else Inr (w\<lparr>privs := (privs w)(keep_alive \<mapsto> new_priv)\<rparr>, keep_alive)))"

definition gjs_keep_alive_create :: "engine \<Rightarrow> world \<Rightarrow> ptr \<Rightarrow> fatal + world \<times> ptr" where
  "gjs_keep_alive_create js w context =
     (case gjs_keep_alive_new js w context of
        Inl e \<Rightarrow> Inl e
      | Inr (w1, keep_alive) \<Rightarrow>
          if keep_alive = 0
          then Inl (GError ''could not create keep_alive on global object, no memory?'')
          else Inr (w1\<lparr>slot := (slot w1)(context \<mapsto> keep_alive)\<rparr>, keep_alive))"

definition gjs_keep_alive_get_global_if_exists :: "world \<Rightarrow> ptr \<Rightarrow> ptr" where
  "gjs_keep_alive_get_global_if_exists w context =
     (case slot w context of Some keep_alive \<Rightarrow> keep_alive | None \<Rightarrow> 0)"

definition gjs_keep_alive_get_global :: "engine \<Rightarrow> world \<Rightarrow> ptr \<Rightarrow> fatal + world \<times> ptr" where
  "gjs_keep_alive_get_global js w context =
     (let keep_alive = gjs_keep_alive_get_global_if_exists w context in
      if keep_alive \<noteq> 0 then Inr (w, keep_alive)
      else gjs_keep_alive_create js w context)"

definition gjs_keep_alive_add_global_child ::
  "engine \<Rightarrow> world \<Rightarrow> ptr \<Rightarrow> ptr \<Rightarrow> ptr \<Rightarrow> ptr \<Rightarrow> fatal + world" where
  "gjs_keep_alive_add_global_child js w context notify_func obj data_ptr =
     (case gjs_keep_alive_get_global js w context of
        Inl e \<Rightarrow> Inl e
      | Inr (w1, keep_alive) \<Rightarrow> gjs_keep_alive_add_child w1 keep_alive notify_func obj data_ptr)"

definition gjs_keep_alive_remove_global_child ::
  "engine \<Rightarrow> world \<Rightarrow> ptr \<Rightarrow> ptr \<Rightarrow> ptr \<Rightarrow> ptr \<Rightarrow> fatal + world" where
  "gjs_keep_alive_remove_global_child js w context notify_func obj data_ptr =
     (case gjs_keep_alive_get_global js w context of
        Inl e \<Rightarrow> Inl e
      | Inr (w1, keep_alive) \<Rightarrow>
          if keep_alive = 0
          then Inl (GError ''no keep_alive property on the global object, have you previously added this child?'')
          else gjs_keep_alive_remove_child w1 keep_alive notify_func obj data_ptr)"

section \<open>Notions used in the properties\<close>

text \<open>The entry set of a table: the (notifier, handle, data) triples of its nodes.\<close>

definition entry_set :: "GHashTable \<Rightarrow> Child set" where
  "entry_set t = node_key ` set t"

text \<open>
  A table as the code builds it: every node was inserted under the hash its key has now,
  and no two nodes hold equal keys.
\<close>

definition table_ok :: "GHashTable \<Rightarrow> bool" where
  "table_ok t \<longleftrightarrow>
     (\<forall>n \<in> set t. node_hash n = child_hash (node_key n)) \<and> distinct (map node_key t)"

text \<open>What \<open>keep_alive_finalize\<close> does for one entry.\<close>

definition finalize_entry :: "node \<Rightarrow> event list" where
  "finalize_entry n =
     [Stolen (node_key n)]
     @ (if notify (node_key n) \<noteq> 0
        then [Notified (notify (node_key n)) (child (node_key n)) (data (node_key n))] else [])
     @ [ChildFreed (node_key n)]"

text \<open>The notifier calls among the events, as (notifier, handle, data), in order.\<close>

fun notifier_calls :: "event list \<Rightarrow> (ptr \<times> ptr \<times> ptr) list" where
  "notifier_calls [] = []"
| "notifier_calls (Notified f h d # evs) = (f, h, d) # notifier_calls evs"
| "notifier_calls (_ # evs) = notifier_calls evs"

text \<open>An entry after the tracer has seen its handle.\<close>

definition traced :: "(ptr \<Rightarrow> ptr) \<Rightarrow> Child \<Rightarrow> Child" where
  "traced tracer c = c\<lparr>child := tracer (child c)\<rparr>"

text \<open>The tracer reports no address change for any entry of the table.\<close>

definition no_address_change :: "(ptr \<Rightarrow> ptr) \<Rightarrow> GHashTable \<Rightarrow> bool" where
  "no_address_change tracer t \<longleftrightarrow>
     (\<forall>n \<in> set t. tracer (child (node_key n)) = child (node_key n))"

text \<open>
  No entry with the notifier and data of \<open>c\<close> has the handle address of \<open>c\<close>
  after the pass.
\<close>

definition address_vacated :: "(ptr \<Rightarrow> ptr) \<Rightarrow> GHashTable \<Rightarrow> Child \<Rightarrow> bool" where
  "address_vacated tracer t c \<longleftrightarrow>
     (\<forall>e \<in> entry_set t. notify e = notify c \<and> data e = data c \<longrightarrow> tracer (child e) \<noteq> child c)"

text \<open>
  A process with one registry, at object address 4096, holding the table \<open>t\<close>, with
  the two guards as given, no events yet and critical warnings not fatal (the default).
\<close>

definition registry_world :: "GHashTable \<Rightarrow> bool \<Rightarrow> bool \<Rightarrow> world" where
  "registry_world t fin tr =
     \<lparr>privs = [4096 \<mapsto> \<lparr>children = t, inside_finalize = fin, inside_trace = tr\<rparr>],
      slot = Map.empty, events = [], fatal_criticals = False\<rparr>"

text \<open>
  The scenario of the specification: three entries, two under the notifier at address 16 and
  one under the notifier at address 32.
\<close>

definition scenario :: GHashTable where
  "scenario =
     [new_node \<lparr>child = 256, notify = 16, data = 1\<rparr>,
      new_node \<lparr>child = 512, notify = 16, data = 2\<rparr>,
      new_node \<lparr>child = 768, notify = 32, data = 3\<rparr>]"

section \<open>Hash and equality\<close>

lemma child_equal_iff: "child_equal c1 c2 \<longleftrightarrow> c1 = c2"
  by (auto simp: child_equal_def)

text \<open>
  C9: two entries that \<open>child_equal\<close> judges equal have the same \<open>child_hash\<close>.
\<close>

theorem child_equal_same_hash:
  "child_equal c1 c2 \<Longrightarrow> child_hash c1 = child_hash c2"
  by (simp add: child_equal_def child_hash_def)

theorem child_equal_same_hash_witness:
  "child_equal \<lparr>child = 4096, notify = 7, data = 9\<rparr> \<lparr>child = 4096, notify = 7, data = 9\<rparr>
   \<and> child_hash \<lparr>child = 4096, notify = 7, data = 9\<rparr> = child_hash \<lparr>child = 4096, notify = 7, data = 9\<rparr>"
  using child_equal_same_hash [of "\<lparr>child = 4096, notify = 7, data = 9\<rparr>" "\<lparr>child = 4096, notify = 7, data = 9\<rparr>"]
  by (simp add: child_equal_def)

section \<open>The hash table as a set of entries\<close>

lemma lookup_None_iff:
  "g_hash_table_lookup t k = None \<longleftrightarrow> (\<forall>n \<in> set t. \<not> node_matches n k)"
  by (induction t) auto

lemma lookup_Some_key: "g_hash_table_lookup t k = Some v \<Longrightarrow> v = k"
  by (induction t) (auto simp: node_matches_def child_equal_iff split: if_splits)

lemma lookup_absent: "k \<notin> entry_set t \<Longrightarrow> g_hash_table_lookup t k = None"
  by (auto simp: lookup_None_iff entry_set_def node_matches_def child_equal_iff)

lemma lookup_present:
  "table_ok t \<Longrightarrow> k \<in> entry_set t \<Longrightarrow> g_hash_table_lookup t k = Some k"
  by (induction t) (auto simp: table_ok_def entry_set_def node_matches_def child_equal_iff)

lemma entry_set_insert_node: "entry_set (g_hash_table_insert_node t k) = insert k (entry_set t)"
  by (induction t) (auto simp: entry_set_def node_matches_def child_equal_iff new_node_def)

lemma table_ok_insert_node: "table_ok t \<Longrightarrow> table_ok (g_hash_table_insert_node t k)"
proof (induction t)
  case Nil
  show ?case by (simp add: table_ok_def new_node_def)
next
  case (Cons n t)
  from Cons.prems have ok: "table_ok t" and h: "node_hash n = child_hash (node_key n)"
    and fresh: "node_key n \<notin> entry_set t"
    by (auto simp: table_ok_def entry_set_def)
  show ?case
  proof (cases "node_matches n k")
    case True
    then have "n\<lparr>node_key := k\<rparr> = n" by (simp add: node_matches_def child_equal_iff)
    with True Cons.prems show ?thesis by simp
  next
    case False
    with h have "node_key n \<noteq> k" by (auto simp: node_matches_def child_equal_iff)
    with fresh have "node_key n \<notin> entry_set (g_hash_table_insert_node t k)"
      by (simp add: entry_set_insert_node)
    with False h Cons.IH [OF ok] show ?thesis
      by (auto simp: table_ok_def entry_set_def)
  qed
qed

lemma remove_node_absent: "k \<notin> entry_set t \<Longrightarrow> g_hash_table_remove_node t k = t"
  by (induction t) (auto simp: entry_set_def node_matches_def child_equal_iff)

lemma remove_absent: "k \<notin> entry_set t \<Longrightarrow> g_hash_table_remove t k = (t, None)"
  by (simp add: g_hash_table_remove_def remove_node_absent lookup_absent)

lemma remove_present:
  "table_ok t \<Longrightarrow> k \<in> entry_set t
   \<Longrightarrow> g_hash_table_remove t k = (g_hash_table_remove_node t k, Some k)"
  by (simp add: g_hash_table_remove_def lookup_present)

lemma entry_set_remove_node:
  "table_ok t \<Longrightarrow> entry_set (g_hash_table_remove_node t k) = entry_set t - {k}"
proof (induction t)
  case Nil
  show ?case by (simp add: entry_set_def)
next
  case (Cons n t)
  from Cons.prems have ok: "table_ok t" and h: "node_hash n = child_hash (node_key n)"
    and fresh: "node_key n \<notin> entry_set t"
    by (auto simp: table_ok_def entry_set_def)
  show ?case
  proof (cases "node_matches n k")
    case True
    then have "node_key n = k" by (simp add: node_matches_def child_equal_iff)
    with True fresh show ?thesis by (auto simp: entry_set_def)
  next
    case False
    with h have "node_key n \<noteq> k" by (auto simp: node_matches_def child_equal_iff)
    with False Cons.IH [OF ok] show ?thesis by (auto simp: entry_set_def)
  qed
qed

lemma set_remove_node_subset: "set (g_hash_table_remove_node t k) \<subseteq> set t"
  by (induction t) auto

lemma table_ok_remove_node: "table_ok t \<Longrightarrow> table_ok (g_hash_table_remove_node t k)"
proof (induction t)
  case Nil
  show ?case by (simp add: table_ok_def)
next
  case (Cons n t)
  from Cons.prems have ok: "table_ok t" by (auto simp: table_ok_def)
  from Cons.prems have "node_key n \<notin> node_key ` set t" by (auto simp: table_ok_def)
  with set_remove_node_subset [of t k]
  have "node_key n \<notin> node_key ` set (g_hash_table_remove_node t k)" by blast
  with Cons.prems Cons.IH [OF ok] ok show ?case
    by (auto simp: table_ok_def)
qed

lemma table_ok_filter: "table_ok t \<Longrightarrow> table_ok (filter P t)"
  by (auto simp: table_ok_def distinct_map_filter)

lemma table_ok_Nil: "table_ok []"
  by (simp add: table_ok_def)

lemma table_ok_new_priv: "table_ok (children new_priv)"
  by (simp add: new_priv_def table_ok_def)

section \<open>The loops in closed form\<close>

lemma finalize_loop_events:
  "finalize_loop t evs = ([], evs @ concat (map finalize_entry t))"
  by (induction t arbitrary: evs) (simp_all add: finalize_entry_def child_free_def Let_def)

lemma notifier_calls_append:
  "notifier_calls (xs @ ys) = notifier_calls xs @ notifier_calls ys"
  by (induction xs rule: notifier_calls.induct) simp_all

lemma notifier_calls_finalize:
  "notifier_calls (concat (map finalize_entry t)) =
     map (\<lambda>n. (notify (node_key n), child (node_key n), data (node_key n)))
       (filter (\<lambda>n. notify (node_key n) \<noteq> 0) t)"
  by (induction t) (simp_all add: notifier_calls_append finalize_entry_def)

lemma traced_fixed: "tracer (child c) = child c \<Longrightarrow> traced tracer c = c"
  by (simp add: traced_def)

lemma trace_loop_closed:
  "trace_loop tracer t kept staged evs =
     (kept @ filter (\<lambda>n. tracer (child (node_key n)) = child (node_key n)) t,
      rev (map (\<lambda>n. traced tracer (node_key n))
             (filter (\<lambda>n. tracer (child (node_key n)) \<noteq> child (node_key n)) t)) @ staged,
      evs @ map (\<lambda>n. Stolen (traced tracer (node_key n)))
             (filter (\<lambda>n. tracer (child (node_key n)) \<noteq> child (node_key n)) t))"
  by (induction t arbitrary: kept staged evs) (simp_all add: Let_def traced_def)

lemma entry_set_reinsert:
  "entry_set (fst (g_slist_foreach_reinsert cs t evs)) = set cs \<union> entry_set t"
  by (induction cs arbitrary: t evs)
    (auto simp: reinsert_def g_hash_table_replace_def entry_set_insert_node)

lemma table_ok_reinsert:
  "table_ok t \<Longrightarrow> table_ok (fst (g_slist_foreach_reinsert cs t evs))"
  by (induction cs arbitrary: t evs)
    (auto simp: reinsert_def g_hash_table_replace_def table_ok_insert_node)

lemma keep_alive_trace_result:
  assumes "privs w obj = Some priv" and "\<not> inside_trace priv"
  shows "\<exists>t evs. keep_alive_trace tracer w obj
            = Inr (w\<lparr>privs := (privs w)(obj \<mapsto> priv\<lparr>children := t, inside_trace := False\<rparr>),
                    events := evs\<rparr>)
          \<and> entry_set t = traced tracer ` entry_set (children priv)
          \<and> (table_ok (children priv) \<longrightarrow> table_ok t)"
proof -
  let ?kept = "filter (\<lambda>n. tracer (child (node_key n)) = child (node_key n)) (children priv)"
  let ?staged = "rev (map (\<lambda>n. traced tracer (node_key n))
             (filter (\<lambda>n. tracer (child (node_key n)) \<noteq> child (node_key n)) (children priv)))"
  let ?evs = "events w @ map (\<lambda>n. Stolen (traced tracer (node_key n)))
             (filter (\<lambda>n. tracer (child (node_key n)) \<noteq> child (node_key n)) (children priv))"
  obtain t evs where r: "g_slist_foreach_reinsert ?staged ?kept ?evs = (t, evs)"
    by (cases "g_slist_foreach_reinsert ?staged ?kept ?evs")
  have t: "t = fst (g_slist_foreach_reinsert ?staged ?kept ?evs)"
    using r by simp
  have run: "keep_alive_trace tracer w obj
            = Inr (w\<lparr>privs := (privs w)(obj \<mapsto> priv\<lparr>children := t, inside_trace := False\<rparr>),
                    events := evs\<rparr>)"
    using assms r by (simp add: keep_alive_trace_def trace_loop_closed)
  have "entry_set t = set ?staged \<union> entry_set ?kept"
    unfolding t by (rule entry_set_reinsert)
  also have "\<dots> = traced tracer ` entry_set (children priv)"
    by (auto simp: entry_set_def traced_fixed image_iff) (metis traced_fixed)+
  finally have es: "entry_set t = traced tracer ` entry_set (children priv)" .
  have "table_ok (children priv) \<longrightarrow> table_ok t"
    unfolding t by (simp add: table_ok_reinsert table_ok_filter)
  with run es show ?thesis by blast
qed

lemma iterate_from_filter:
  "iterate_from iter f =
     map (\<lambda>n. (child (node_key n), data (node_key n)))
       (filter (\<lambda>n. notify (node_key n) = f) iter)"
proof (induction iter)
  case Nil
  show ?case by (subst iterate_from.simps) simp
next
  case (Cons n iter)
  show ?case
  proof (cases "notify (node_key n) = f")
    case True
    have "iterate_from (n # iter) f = (child (node_key n), data (node_key n)) # iterate_from iter f"
      using True by (subst iterate_from.simps) simp
    with True Cons.IH show ?thesis by simp
  next
    case False
    have "iterate_from (n # iter) f = iterate_from iter f"
      using False by (subst iterate_from.simps, subst (2) iterate_from.simps) simp
    with False Cons.IH show ?thesis by simp
  qed
qed

lemma remove_child_present:
  assumes "keep_alive \<noteq> 0" and "privs w keep_alive = Some priv"
    and "\<not> inside_trace priv" and "\<not> inside_finalize priv"
    and "table_ok (children priv)"
    and "\<lparr>child = obj, notify = n, data = d\<rparr> \<in> entry_set (children priv)"
  shows "\<exists>t. gjs_keep_alive_remove_child w keep_alive n obj d
           = Inr (w\<lparr>privs := (privs w)(keep_alive \<mapsto> priv\<lparr>children := t\<rparr>),
                   events := events w @ [ChildFreed \<lparr>child = obj, notify = n, data = d\<rparr>]\<rparr>)
         \<and> entry_set t = entry_set (children priv) - {\<lparr>child = obj, notify = n, data = d\<rparr>}"
  using assms
  by (intro exI [of _ "g_hash_table_remove_node (children priv) \<lparr>child = obj, notify = n, data = d\<rparr>"])
    (simp add: gjs_keep_alive_remove_child_def g_hash_table_remove_def lookup_present
      value_destroy_def child_free_def entry_set_remove_node Let_def)

lemma remove_child_absent:
  assumes "keep_alive \<noteq> 0" and "privs w keep_alive = Some priv"
    and "\<not> inside_trace priv" and "\<not> inside_finalize priv"
    and "\<lparr>child = obj, notify = n, data = d\<rparr> \<notin> entry_set (children priv)"
  shows "gjs_keep_alive_remove_child w keep_alive n obj d = Inr w"
proof -
  have "(privs w)(keep_alive \<mapsto> priv) = privs w"
    using assms(2) by (simp add: map_upd_triv)
  with assms show ?thesis
    by (simp add: gjs_keep_alive_remove_child_def remove_absent value_destroy_def)
qed

lemma add_child_fresh:
  assumes "keep_alive \<noteq> 0" and "privs w keep_alive = Some priv"
    and "\<not> inside_trace priv" and "\<not> inside_finalize priv"
    and "\<lparr>child = obj, notify = n, data = d\<rparr> \<notin> entry_set (children priv)"
  shows "gjs_keep_alive_add_child w keep_alive n obj d
           = Inr (w\<lparr>privs := (privs w)(keep_alive \<mapsto>
                    priv\<lparr>children := g_hash_table_insert_node (children priv)
                                          \<lparr>child = obj, notify = n, data = d\<rparr>\<rparr>)\<rparr>)"
  using assms
  by (simp add: gjs_keep_alive_add_child_def g_hash_table_replace_def lookup_absent
      value_destroy_def)

section \<open>The table invariant is kept\<close>

text \<open>
  A new registry has a table that is \<open>table_ok\<close>, and adding, removing and tracing
  keep it so: the hypothesis \<open>table_ok\<close> below holds of every registry the code
  can build.
\<close>

lemma scenario_built_by_adds:
  "gjs_keep_alive_add_child (registry_world [] False False) 4096 16 256 1
     = Inr (registry_world [new_node \<lparr>child = 256, notify = 16, data = 1\<rparr>] False False)
   \<and> gjs_keep_alive_add_child
        (registry_world [new_node \<lparr>child = 256, notify = 16, data = 1\<rparr>] False False)
        4096 16 512 2
     = Inr (registry_world [new_node \<lparr>child = 256, notify = 16, data = 1\<rparr>,
                            new_node \<lparr>child = 512, notify = 16, data = 2\<rparr>] False False)
   \<and> gjs_keep_alive_add_child
        (registry_world [new_node \<lparr>child = 256, notify = 16, data = 1\<rparr>,
                         new_node \<lparr>child = 512, notify = 16, data = 2\<rparr>] False False)
        4096 32 768 3
     = Inr (registry_world scenario False False)"
  by (simp add: gjs_keep_alive_add_child_def registry_world_def scenario_def
      g_hash_table_replace_def value_destroy_def new_node_def node_matches_def
      child_equal_def Let_def)

lemma add_child_table_ok:
  assumes "privs w keep_alive = Some priv" and "table_ok (children priv)"
    and "gjs_keep_alive_add_child w keep_alive n obj d = Inr w'"
  shows "\<exists>priv'. privs w' keep_alive = Some priv' \<and> table_ok (children priv')"
  using assms
  by (auto simp: gjs_keep_alive_add_child_def g_return_if_fail_warning_def
      g_hash_table_replace_def table_ok_insert_node Let_def split: if_splits)

lemma remove_child_table_ok:
  assumes "privs w keep_alive = Some priv" and "table_ok (children priv)"
    and "gjs_keep_alive_remove_child w keep_alive n obj d = Inr w'"
  shows "\<exists>priv'. privs w' keep_alive = Some priv' \<and> table_ok (children priv')"
  using assms
  by (auto simp: gjs_keep_alive_remove_child_def g_return_if_fail_warning_def
      g_hash_table_remove_def table_ok_remove_node Let_def split: if_splits)

lemma trace_table_ok:
  assumes "privs w obj = Some priv" and "table_ok (children priv)"
    and "keep_alive_trace tracer w obj = Inr w'"
  shows "\<exists>priv'. privs w' obj = Some priv' \<and> table_ok (children priv')
           \<and> \<not> inside_trace priv'"
proof -
  from assms(1,3) have "\<not> inside_trace priv"
    by (auto simp: keep_alive_trace_def split: if_splits)
  from keep_alive_trace_result [OF assms(1) this, of tracer] assms(2,3)
  show ?thesis by auto
qed

lemma get_global_never_null:
  "gjs_keep_alive_get_global js w context = Inr (w1, keep_alive) \<Longrightarrow> keep_alive \<noteq> 0"
  by (auto simp: gjs_keep_alive_get_global_def gjs_keep_alive_create_def Let_def
      split: if_splits sum.splits prod.splits)

section \<open>Finalisation\<close>

text \<open>
  C1: \<open>keep_alive_finalize\<close> on a registry takes every entry out of the table, then
  calls its notifier with (handle, data) unless the notifier is \<^verbatim>\<open>NULL\<close>, then
  releases the entry: each entry once, in table order. The loop leaves the table empty, and
  only then are the table and the registry released (no entry is left for the table to
  free). The notifier calls of the whole run are those of the entries with a notifier,
  one per entry.
\<close>

theorem finalize_drains_notifying_once:
  assumes "privs w obj = Some priv"
  shows "finalize_loop (children priv) (events w)
           = ([], events w @ concat (map finalize_entry (children priv)))
         \<and> keep_alive_finalize w obj
           = w\<lparr>privs := (privs w)(obj := None),
               events := events w @ concat (map finalize_entry (children priv))
                         @ [TableDestroyed, PrivFreed]\<rparr>
         \<and> notifier_calls (events (keep_alive_finalize w obj))
           = notifier_calls (events w)
             @ map (\<lambda>n. (notify (node_key n), child (node_key n), data (node_key n)))
                 (filter (\<lambda>n. notify (node_key n) \<noteq> 0) (children priv))"
  using assms
  by (simp add: keep_alive_finalize_def finalize_loop_events g_hash_table_destroy_def
      notifier_calls_append notifier_calls_finalize)

theorem finalize_drains_notifying_once_witness:
  "privs (registry_world (scenario @ [new_node \<lparr>child = 1024, notify = 0, data = 4\<rparr>]) False False) 4096
     = Some \<lparr>children = scenario @ [new_node \<lparr>child = 1024, notify = 0, data = 4\<rparr>],
             inside_finalize = False, inside_trace = False\<rparr>
   \<and> fst (finalize_loop (scenario @ [new_node \<lparr>child = 1024, notify = 0, data = 4\<rparr>]) []) = []
   \<and> privs (keep_alive_finalize
        (registry_world (scenario @ [new_node \<lparr>child = 1024, notify = 0, data = 4\<rparr>]) False False)
        4096) 4096 = None
   \<and> events (keep_alive_finalize
        (registry_world (scenario @ [new_node \<lparr>child = 1024, notify = 0, data = 4\<rparr>]) False False)
        4096)
     = [Stolen \<lparr>child = 256, notify = 16, data = 1\<rparr>, Notified 16 256 1,
        ChildFreed \<lparr>child = 256, notify = 16, data = 1\<rparr>,
        Stolen \<lparr>child = 512, notify = 16, data = 2\<rparr>, Notified 16 512 2,
        ChildFreed \<lparr>child = 512, notify = 16, data = 2\<rparr>,
        Stolen \<lparr>child = 768, notify = 32, data = 3\<rparr>, Notified 32 768 3,
        ChildFreed \<lparr>child = 768, notify = 32, data = 3\<rparr>,
        Stolen \<lparr>child = 1024, notify = 0, data = 4\<rparr>,
        ChildFreed \<lparr>child = 1024, notify = 0, data = 4\<rparr>,
        TableDestroyed, PrivFreed]
   \<and> notifier_calls (events (keep_alive_finalize
        (registry_world (scenario @ [new_node \<lparr>child = 1024, notify = 0, data = 4\<rparr>]) False False)
        4096))
     = [(16, 256, 1), (16, 512, 2), (32, 768, 3)]"
  using finalize_drains_notifying_once
    [of "registry_world (scenario @ [new_node \<lparr>child = 1024, notify = 0, data = 4\<rparr>]) False False"
        4096
        "\<lparr>children = scenario @ [new_node \<lparr>child = 1024, notify = 0, data = 4\<rparr>],
          inside_finalize = False, inside_trace = False\<rparr>"]
  by (simp add: registry_world_def scenario_def new_node_def finalize_entry_def)

section \<open>Tracing\<close>

text \<open>
  C6: when the tracer reports no address change for any entry, \<open>keep_alive_trace\<close>
  returns with the process state exactly as it was: the same entries, no event, and
  \<open>inside_trace\<close> false again. (It was false at the call: with the guard already set the
  assertion at the top of the function ends the process.)
\<close>

theorem trace_without_moves_changes_nothing:
  assumes "privs w obj = Some priv"
    and "no_address_change tracer (children priv)"
  shows "keep_alive_trace tracer w obj =
           (if inside_trace priv then Inl (AssertionFailed ''!priv->inside_trace'') else Inr w)"
proof (cases "inside_trace priv")
  case True
  with assms(1) show ?thesis by (simp add: keep_alive_trace_def)
next
  case False
  from assms(2) have keep: "filter (\<lambda>n. tracer (child (node_key n)) = child (node_key n)) (children priv) = children priv"
    by (simp add: filter_id_conv no_address_change_def)
  from assms(2) have none: "filter (\<lambda>n. tracer (child (node_key n)) \<noteq> child (node_key n)) (children priv) = []"
    by (simp add: filter_empty_conv no_address_change_def)
  from False have same: "priv\<lparr>inside_trace := False\<rparr> = priv"
    by simp
  have "(privs w)(obj \<mapsto> priv) = privs w"
    using assms(1) by (simp add: map_upd_triv)
  with assms(1) False keep none show ?thesis
    by (simp add: keep_alive_trace_def trace_loop_closed same)
qed

theorem trace_without_moves_changes_nothing_witness:
  "privs (registry_world scenario False False) 4096
     = Some \<lparr>children = scenario, inside_finalize = False, inside_trace = False\<rparr>
   \<and> no_address_change (\<lambda>a. a) scenario
   \<and> keep_alive_trace (\<lambda>a. a) (registry_world scenario False False) 4096
     = Inr (registry_world scenario False False)"
  using trace_without_moves_changes_nothing
    [of "registry_world scenario False False" 4096
        "\<lparr>children = scenario, inside_finalize = False, inside_trace = False\<rparr>" "\<lambda>a. a"]
  by (simp add: registry_world_def no_address_change_def)

section \<open>Iteration\<close>

text \<open>
  C8: iterating a registry with a notifier filter hands out the (handle, data) pairs of
  exactly the entries whose notifier is the filter, each once, in table order.
\<close>

theorem iterate_yields_matching_entries:
  assumes "keep_alive \<noteq> 0" and "privs w keep_alive = Some priv"
  shows "iterate w keep_alive f =
           Inr (map (\<lambda>n. (child (node_key n), data (node_key n)))
                  (filter (\<lambda>n. notify (node_key n) = f) (children priv)))"
  using assms by (simp add: iterate_def gjs_keep_alive_iterator_init_def iterate_from_filter)

theorem iterate_yields_matching_entries_witness:
  "(4096 :: ptr) \<noteq> 0
   \<and> privs (registry_world scenario False False) 4096
     = Some \<lparr>children = scenario, inside_finalize = False, inside_trace = False\<rparr>
   \<and> iterate (registry_world scenario False False) 4096 16 = Inr [(256, 1), (512, 2)]
   \<and> iterate (registry_world scenario False False) 4096 32 = Inr [(768, 3)]"
  using iterate_yields_matching_entries
    [of 4096 "registry_world scenario False False"
        "\<lparr>children = scenario, inside_finalize = False, inside_trace = False\<rparr>" 16]
    iterate_yields_matching_entries
    [of 4096 "registry_world scenario False False"
        "\<lparr>children = scenario, inside_finalize = False, inside_trace = False\<rparr>" 32]
  by (simp add: registry_world_def scenario_def new_node_def)

section \<open>Adding and removing\<close>

text \<open>
  C7: removing a triple that is not in the registry returns normally and changes nothing:
  the entry set is the same and no event (so no notifier call) happens.
\<close>

theorem remove_absent_is_noop:
  assumes "keep_alive \<noteq> 0" and "privs w keep_alive = Some priv"
    and "\<not> inside_trace priv" and "\<not> inside_finalize priv"
    and "\<lparr>child = obj, notify = n, data = d\<rparr> \<notin> entry_set (children priv)"
  shows "gjs_keep_alive_remove_child w keep_alive n obj d = Inr w"
  using assms by (rule remove_child_absent)

theorem remove_absent_is_noop_witness:
  "(4096 :: ptr) \<noteq> 0
   \<and> privs (registry_world scenario False False) 4096
     = Some \<lparr>children = scenario, inside_finalize = False, inside_trace = False\<rparr>
   \<and> \<lparr>child = 1024, notify = 16, data = 1\<rparr> \<notin> entry_set scenario
   \<and> gjs_keep_alive_remove_child (registry_world scenario False False) 4096 16 1024 1
     = Inr (registry_world scenario False False)"
  using remove_absent_is_noop
    [of 4096 "registry_world scenario False False"
        "\<lparr>children = scenario, inside_finalize = False, inside_trace = False\<rparr>" 1024 16 1]
  by (simp add: registry_world_def scenario_def new_node_def entry_set_def)

text \<open>
  C10: when \<open>gjs_keep_alive_add_child\<close> returns early because a guard fails (the
  registry is inside trace or finalize, or the triple is already there), the process is
  as it was but for one critical warning naming the failed guard: every registry, this
  one included, is exactly as it was, nothing is inserted, and the existing entry is not
  replaced (no \<open>Child\<close> is released, no notifier is called).
\<close>

theorem add_guard_failure_keeps_entries:
  assumes "keep_alive \<noteq> 0" and "privs w keep_alive = Some priv"
    and "table_ok (children priv)"
    and "inside_trace priv \<or> inside_finalize priv
         \<or> \<lparr>child = obj, notify = n, data = d\<rparr> \<in> entry_set (children priv)"
    and "gjs_keep_alive_add_child w keep_alive n obj d = Inr w'"
  shows "w' = w\<lparr>events := events w
                 @ [Critical (if inside_trace priv then ''!priv->inside_trace''
                              else if inside_finalize priv then ''!priv->inside_finalize''
                              else ''g_hash_table_lookup(priv->children, child) == NULL'')]\<rparr>
         \<and> privs w' keep_alive = Some priv
         \<and> privs w' = privs w
         \<and> notifier_calls (events w') = notifier_calls (events w)
         \<and> [e \<leftarrow> events w'. e = ChildFreed \<lparr>child = obj, notify = n, data = d\<rparr>]
             = [e \<leftarrow> events w. e = ChildFreed \<lparr>child = obj, notify = n, data = d\<rparr>]"
proof -
  have "\<lparr>child = obj, notify = n, data = d\<rparr> \<in> entry_set (children priv)
        \<Longrightarrow> g_hash_table_lookup (children priv) \<lparr>child = obj, notify = n, data = d\<rparr> \<noteq> None"
    using assms(3) by (simp add: lookup_present)
  with assms(1,2,4,5)
  have eq: "w' = w\<lparr>events := events w
                 @ [Critical (if inside_trace priv then ''!priv->inside_trace''
                              else if inside_finalize priv then ''!priv->inside_finalize''
                              else ''g_hash_table_lookup(priv->children, child) == NULL'')]\<rparr>"
    by (auto simp: gjs_keep_alive_add_child_def g_return_if_fail_warning_def Let_def
        split: if_splits)
  have p: "privs w' keep_alive = Some priv" "privs w' = privs w"
    using assms(2) by (simp_all add: eq)
  have calls: "notifier_calls (events w') = notifier_calls (events w)"
    by (simp add: eq notifier_calls_append)
  have freed: "[e \<leftarrow> events w'. e = ChildFreed \<lparr>child = obj, notify = n, data = d\<rparr>]
             = [e \<leftarrow> events w. e = ChildFreed \<lparr>child = obj, notify = n, data = d\<rparr>]"
    by (simp add: eq)
  from eq p calls freed show ?thesis
    by blast
qed

theorem add_guard_failure_keeps_entries_witness:
  "(4096 :: ptr) \<noteq> 0
   \<and> privs (registry_world scenario False False) 4096
     = Some \<lparr>children = scenario, inside_finalize = False, inside_trace = False\<rparr>
   \<and> table_ok scenario
   \<and> \<lparr>child = 768, notify = 32, data = 3\<rparr> \<in> entry_set scenario
   \<and> gjs_keep_alive_add_child (registry_world scenario False False) 4096 32 768 3
     = Inr ((registry_world scenario False False)
              \<lparr>events := [Critical ''g_hash_table_lookup(priv->children, child) == NULL'']\<rparr>)
   \<and> privs ((registry_world scenario False False)
              \<lparr>events := [Critical ''g_hash_table_lookup(priv->children, child) == NULL'']\<rparr>) 4096
     = Some \<lparr>children = scenario, inside_finalize = False, inside_trace = False\<rparr>
   \<and> events ((registry_world scenario False False)
              \<lparr>events := [Critical ''g_hash_table_lookup(priv->children, child) == NULL'']\<rparr>)
     = [Critical ''g_hash_table_lookup(priv->children, child) == NULL'']
   \<and> gjs_keep_alive_add_child (registry_world scenario True False) 4096 16 1024 4
     = Inr ((registry_world scenario True False)\<lparr>events := [Critical ''!priv->inside_finalize'']\<rparr>)"
proof -
  have ok: "table_ok scenario"
    by (simp add: scenario_def new_node_def table_ok_def)
  have mem: "\<lparr>child = 768, notify = 32, data = 3\<rparr> \<in> entry_set scenario"
    by (simp add: scenario_def new_node_def entry_set_def)
  have p: "privs (registry_world scenario False False) 4096
     = Some \<lparr>children = scenario, inside_finalize = False, inside_trace = False\<rparr>"
    by (simp add: registry_world_def)
  have "\<exists>w'. gjs_keep_alive_add_child (registry_world scenario False False) 4096 32 768 3 = Inr w'"
    using ok mem
    by (simp add: gjs_keep_alive_add_child_def registry_world_def g_return_if_fail_warning_def
        lookup_present)
  then obtain w' where
    ret: "gjs_keep_alive_add_child (registry_world scenario False False) 4096 32 768 3 = Inr w'"
    by blast
  have "w' = (registry_world scenario False False)
              \<lparr>events := [Critical ''g_hash_table_lookup(priv->children, child) == NULL'']\<rparr>"
    using add_guard_failure_keeps_entries
      [of 4096 "registry_world scenario False False"
        "\<lparr>children = scenario, inside_finalize = False, inside_trace = False\<rparr>" 768 32 3 w']
      ok mem p ret
    by (simp add: registry_world_def)
  with ret have run: "gjs_keep_alive_add_child (registry_world scenario False False) 4096 32 768 3
     = Inr ((registry_world scenario False False)
              \<lparr>events := [Critical ''g_hash_table_lookup(priv->children, child) == NULL'']\<rparr>)"
    by simp
  have p2: "privs (registry_world scenario True False) 4096
     = Some \<lparr>children = scenario, inside_finalize = True, inside_trace = False\<rparr>"
    by (simp add: registry_world_def)
  have "\<exists>w'. gjs_keep_alive_add_child (registry_world scenario True False) 4096 16 1024 4 = Inr w'"
    by (simp add: gjs_keep_alive_add_child_def registry_world_def g_return_if_fail_warning_def)
  then obtain w2 where
    ret2: "gjs_keep_alive_add_child (registry_world scenario True False) 4096 16 1024 4 = Inr w2"
    by blast
  have "w2 = (registry_world scenario True False)\<lparr>events := [Critical ''!priv->inside_finalize'']\<rparr>"
    using add_guard_failure_keeps_entries
      [of 4096 "registry_world scenario True False"
        "\<lparr>children = scenario, inside_finalize = True, inside_trace = False\<rparr>" 1024 16 4 w2]
      ok p2 ret2
    by (simp add: registry_world_def)
  with ret2 have run2: "gjs_keep_alive_add_child (registry_world scenario True False) 4096 16 1024 4
     = Inr ((registry_world scenario True False)\<lparr>events := [Critical ''!priv->inside_finalize'']\<rparr>)"
    by simp
  from ok mem p run run2 show ?thesis
    by simp
qed

text \<open>
  C2, as the code has it: adding a triple that is already in the registry is reported and
  rejected. \<^verbatim>\<open>g_return_if_fail\<close> logs a critical warning and the function returns
  with the registry untouched (the entry is neither merged nor overwritten); the process
  is terminated only where critical warnings are fatal.
\<close>

theorem duplicate_add_reported_not_merged:
  assumes "keep_alive \<noteq> 0" and "privs w keep_alive = Some priv"
    and "\<not> inside_trace priv" and "\<not> inside_finalize priv"
    and "table_ok (children priv)"
    and "\<lparr>child = obj, notify = n, data = d\<rparr> \<in> entry_set (children priv)"
  shows "gjs_keep_alive_add_child w keep_alive n obj d =
           (if fatal_criticals w
            then Inl (FatalCritical ''g_hash_table_lookup(priv->children, child) == NULL'')
            else Inr (w\<lparr>events := events w
                        @ [Critical ''g_hash_table_lookup(priv->children, child) == NULL'']\<rparr>))"
  using assms
  by (simp add: gjs_keep_alive_add_child_def g_return_if_fail_warning_def lookup_present)

theorem duplicate_add_reported_not_merged_witness:
  "(4096 :: ptr) \<noteq> 0
   \<and> privs (registry_world scenario False False) 4096
     = Some \<lparr>children = scenario, inside_finalize = False, inside_trace = False\<rparr>
   \<and> table_ok scenario
   \<and> \<lparr>child = 512, notify = 16, data = 2\<rparr> \<in> entry_set scenario
   \<and> gjs_keep_alive_add_child (registry_world scenario False False) 4096 16 512 2
     = Inr ((registry_world scenario False False)
              \<lparr>events := [Critical ''g_hash_table_lookup(priv->children, child) == NULL'']\<rparr>)
   \<and> gjs_keep_alive_add_child ((registry_world scenario False False)\<lparr>fatal_criticals := True\<rparr>)
        4096 16 512 2
     = Inl (FatalCritical ''g_hash_table_lookup(priv->children, child) == NULL'')"
  using duplicate_add_reported_not_merged
    [of 4096 "registry_world scenario False False"
        "\<lparr>children = scenario, inside_finalize = False, inside_trace = False\<rparr>" 512 16 2]
    duplicate_add_reported_not_merged
    [of 4096 "(registry_world scenario False False)\<lparr>fatal_criticals := True\<rparr>"
        "\<lparr>children = scenario, inside_finalize = False, inside_trace = False\<rparr>" 512 16 2]
  by (simp add: registry_world_def scenario_def new_node_def entry_set_def table_ok_def)

text \<open>
  With GLib's default the second add of a triple returns normally, after a critical
  warning: it does not terminate the process.
\<close>

theorem second_add_returns_counterexample:
  "gjs_keep_alive_add_child (registry_world [] False False) 4096 16 256 1
     = Inr (registry_world [new_node \<lparr>child = 256, notify = 16, data = 1\<rparr>] False False)
   \<and> gjs_keep_alive_add_child
        (registry_world [new_node \<lparr>child = 256, notify = 16, data = 1\<rparr>] False False)
        4096 16 256 1
     = Inr ((registry_world [new_node \<lparr>child = 256, notify = 16, data = 1\<rparr>] False False)
              \<lparr>events := [Critical ''g_hash_table_lookup(priv->children, child) == NULL'']\<rparr>)"
  by (simp add: gjs_keep_alive_add_child_def registry_world_def g_hash_table_replace_def
      g_return_if_fail_warning_def value_destroy_def new_node_def node_matches_def
      child_equal_def Let_def)

text \<open>
  C3, as the code has it: \<open>gjs_keep_alive_add_child\<close> and
  \<open>gjs_keep_alive_remove_child\<close> called while \<open>inside_trace\<close> or
  \<open>inside_finalize\<close> is set are reported and rejected: a critical warning naming the
  guard is logged and the function returns with the registry untouched; the process is
  terminated only where critical warnings are fatal.
\<close>

theorem reentrant_add_remove_reported:
  assumes "keep_alive \<noteq> 0" and "privs w keep_alive = Some priv"
    and "inside_trace priv \<or> inside_finalize priv"
  shows "gjs_keep_alive_add_child w keep_alive n obj d =
           (if fatal_criticals w
            then Inl (FatalCritical
                   (if inside_trace priv then ''!priv->inside_trace'' else ''!priv->inside_finalize''))
            else Inr (w\<lparr>events := events w
                   @ [Critical (if inside_trace priv then ''!priv->inside_trace''
                                else ''!priv->inside_finalize'')]\<rparr>))
         \<and> gjs_keep_alive_remove_child w keep_alive n obj d =
           (if fatal_criticals w
            then Inl (FatalCritical
                   (if inside_trace priv then ''!priv->inside_trace'' else ''!priv->inside_finalize''))
            else Inr (w\<lparr>events := events w
                   @ [Critical (if inside_trace priv then ''!priv->inside_trace''
                                else ''!priv->inside_finalize'')]\<rparr>))"
  using assms
  by (auto simp: gjs_keep_alive_add_child_def gjs_keep_alive_remove_child_def
      g_return_if_fail_warning_def)

theorem reentrant_add_remove_reported_witness:
  "(4096 :: ptr) \<noteq> 0
   \<and> privs (registry_world scenario False True) 4096
     = Some \<lparr>children = scenario, inside_finalize = False, inside_trace = True\<rparr>
   \<and> gjs_keep_alive_add_child (registry_world scenario False True) 4096 16 1024 4
     = Inr ((registry_world scenario False True)\<lparr>events := [Critical ''!priv->inside_trace'']\<rparr>)
   \<and> gjs_keep_alive_remove_child (registry_world scenario False True) 4096 16 256 1
     = Inr ((registry_world scenario False True)\<lparr>events := [Critical ''!priv->inside_trace'']\<rparr>)
   \<and> gjs_keep_alive_add_child ((registry_world scenario False True)\<lparr>fatal_criticals := True\<rparr>)
        4096 16 1024 4
     = Inl (FatalCritical ''!priv->inside_trace'')"
  using reentrant_add_remove_reported
    [of 4096 "registry_world scenario False True"
        "\<lparr>children = scenario, inside_finalize = False, inside_trace = True\<rparr>" 16 1024 4]
    reentrant_add_remove_reported
    [of 4096 "registry_world scenario False True"
        "\<lparr>children = scenario, inside_finalize = False, inside_trace = True\<rparr>" 16 256 1]
    reentrant_add_remove_reported
    [of 4096 "(registry_world scenario False True)\<lparr>fatal_criticals := True\<rparr>"
        "\<lparr>children = scenario, inside_finalize = False, inside_trace = True\<rparr>" 16 1024 4]
  by (simp add: registry_world_def)

text \<open>
  With GLib's default both calls return normally while \<open>inside_finalize\<close> is set.
\<close>

theorem reentrant_call_returns_counterexample:
  "gjs_keep_alive_add_child (registry_world scenario True False) 4096 16 1024 4
     = Inr ((registry_world scenario True False)\<lparr>events := [Critical ''!priv->inside_finalize'']\<rparr>)
   \<and> gjs_keep_alive_remove_child (registry_world scenario True False) 4096 16 256 1
     = Inr ((registry_world scenario True False)\<lparr>events := [Critical ''!priv->inside_finalize'']\<rparr>)"
  by (simp add: gjs_keep_alive_add_child_def gjs_keep_alive_remove_child_def registry_world_def
      g_return_if_fail_warning_def)

section \<open>Relocation during a trace\<close>

text \<open>
  C5, as the code has it: for an entry whose handle the tracer moves, the scan leaves only
  the unmoved nodes in the table and stages the moved entry under its new handle; the
  entries are reinserted after the scan. After \<open>keep_alive_trace\<close> has returned, a
  remove with the new handle finds and removes the entry (it is released without a
  notifier call). A remove with the stale handle changes nothing provided no entry with
  the same notifier and data has that address as its handle after the pass.
\<close>

theorem trace_relocates_moved_entry:
  assumes "keep_alive \<noteq> 0" and "privs w keep_alive = Some priv"
    and "\<not> inside_trace priv" and "\<not> inside_finalize priv"
    and "table_ok (children priv)"
    and "c \<in> entry_set (children priv)"
    and "tracer (child c) \<noteq> child c"
  shows "\<exists>w1 priv1.
           keep_alive_trace tracer w keep_alive = Inr w1
         \<and> privs w1 keep_alive = Some priv1
         \<and> \<not> inside_trace priv1
         \<and> fst (trace_loop tracer (children priv) [] [] (events w))
             = filter (\<lambda>n. tracer (child (node_key n)) = child (node_key n)) (children priv)
         \<and> traced tracer c \<in> set (fst (snd (trace_loop tracer (children priv) [] [] (events w))))
         \<and> traced tracer c \<in> entry_set (children priv1)
         \<and> (\<exists>w2 priv2.
               gjs_keep_alive_remove_child w1 keep_alive (notify c) (tracer (child c)) (data c)
                 = Inr w2
             \<and> privs w2 keep_alive = Some priv2
             \<and> entry_set (children priv2) = entry_set (children priv1) - {traced tracer c}
             \<and> events w2 = events w1 @ [ChildFreed (traced tracer c)])
         \<and> (address_vacated tracer (children priv) c
              \<longrightarrow> gjs_keep_alive_remove_child w1 keep_alive (notify c) (child c) (data c)
                    = Inr w1)"
proof -
  from keep_alive_trace_result [OF assms(2,3), of tracer]
  obtain t evs where run: "keep_alive_trace tracer w keep_alive
            = Inr (w\<lparr>privs := (privs w)(keep_alive \<mapsto> priv\<lparr>children := t, inside_trace := False\<rparr>),
                    events := evs\<rparr>)"
    and es: "entry_set t = traced tracer ` entry_set (children priv)"
    and ok: "table_ok t"
    using assms(5) by blast
  let ?priv1 = "priv\<lparr>children := t, inside_trace := False\<rparr>"
  let ?w1 = "w\<lparr>privs := (privs w)(keep_alive \<mapsto> ?priv1), events := evs\<rparr>"
  have p1: "privs ?w1 keep_alive = Some ?priv1" by simp
  have flags: "\<not> inside_trace ?priv1" "\<not> inside_finalize ?priv1"
    using assms(4) by simp_all
  have ok1: "table_ok (children ?priv1)" using ok by simp
  have new_triple: "\<lparr>child = tracer (child c), notify = notify c, data = data c\<rparr> = traced tracer c"
    by (simp add: traced_def)
  have old_triple: "\<lparr>child = child c, notify = notify c, data = data c\<rparr> = c"
    by simp
  have scan1: "fst (trace_loop tracer (children priv) [] [] (events w))
             = filter (\<lambda>n. tracer (child (node_key n)) = child (node_key n)) (children priv)"
    by (simp add: trace_loop_closed)
  have scan2: "traced tracer c \<in> set (fst (snd (trace_loop tracer (children priv) [] [] (events w))))"
    using assms(6,7) by (auto simp: trace_loop_closed entry_set_def)
  have mem: "traced tracer c \<in> entry_set (children ?priv1)"
    using es assms(6) by simp
  from remove_child_present [OF assms(1) p1 flags ok1, of "tracer (child c)" "notify c" "data c"] mem
  obtain t2 where rem: "gjs_keep_alive_remove_child ?w1 keep_alive (notify c) (tracer (child c)) (data c)
       = Inr (?w1\<lparr>privs := (privs ?w1)(keep_alive \<mapsto> ?priv1\<lparr>children := t2\<rparr>),
                   events := events ?w1 @ [ChildFreed (traced tracer c)]\<rparr>)"
    and es2: "entry_set t2 = entry_set (children ?priv1) - {traced tracer c}"
    unfolding new_triple by blast
  have new_part: "\<exists>w2 priv2.
               gjs_keep_alive_remove_child ?w1 keep_alive (notify c) (tracer (child c)) (data c)
                 = Inr w2
             \<and> privs w2 keep_alive = Some priv2
             \<and> entry_set (children priv2) = entry_set (children ?priv1) - {traced tracer c}
             \<and> events w2 = events ?w1 @ [ChildFreed (traced tracer c)]"
    unfolding rem using es2 by simp
  have stale_part: "gjs_keep_alive_remove_child ?w1 keep_alive (notify c) (child c) (data c) = Inr ?w1"
    if free: "address_vacated tracer (children priv) c"
  proof -
    have "c \<notin> traced tracer ` entry_set (children priv)"
    proof
      assume "c \<in> traced tracer ` entry_set (children priv)"
      then obtain e where e: "e \<in> entry_set (children priv)" and ce: "c = traced tracer e"
        by blast
      from ce have "notify e = notify c" "data e = data c" "tracer (child e) = child c"
        by (simp_all add: traced_def)
      with free e show False by (auto simp: address_vacated_def)
    qed
    then have "\<lparr>child = child c, notify = notify c, data = data c\<rparr> \<notin> entry_set (children ?priv1)"
      using es by (simp add: old_triple)
    from remove_child_absent [OF assms(1) p1 flags this] show ?thesis .
  qed
  show ?thesis
    apply (rule exI [of _ ?w1], rule exI [of _ ?priv1])
    using run p1 flags(1) scan1 scan2 mem new_part stale_part by blast
qed

theorem trace_relocates_moved_entry_witness:
  "(4096 :: ptr) \<noteq> 0
   \<and> privs (registry_world scenario False False) 4096
     = Some \<lparr>children = scenario, inside_finalize = False, inside_trace = False\<rparr>
   \<and> table_ok scenario
   \<and> \<lparr>child = 256, notify = 16, data = 1\<rparr> \<in> entry_set scenario
   \<and> address_vacated (\<lambda>a. if a = 256 then 8192 else a) scenario
         \<lparr>child = 256, notify = 16, data = 1\<rparr>
   \<and> keep_alive_trace (\<lambda>a. if a = 256 then 8192 else a)
         (registry_world scenario False False) 4096
     = Inr ((registry_world
               [new_node \<lparr>child = 512, notify = 16, data = 2\<rparr>,
                new_node \<lparr>child = 768, notify = 32, data = 3\<rparr>,
                new_node \<lparr>child = 8192, notify = 16, data = 1\<rparr>] False False)
              \<lparr>events := [Stolen \<lparr>child = 8192, notify = 16, data = 1\<rparr>]\<rparr>)
   \<and> gjs_keep_alive_remove_child
         ((registry_world
               [new_node \<lparr>child = 512, notify = 16, data = 2\<rparr>,
                new_node \<lparr>child = 768, notify = 32, data = 3\<rparr>,
                new_node \<lparr>child = 8192, notify = 16, data = 1\<rparr>] False False)
              \<lparr>events := [Stolen \<lparr>child = 8192, notify = 16, data = 1\<rparr>]\<rparr>)
         4096 16 8192 1
     = Inr ((registry_world
               [new_node \<lparr>child = 512, notify = 16, data = 2\<rparr>,
                new_node \<lparr>child = 768, notify = 32, data = 3\<rparr>] False False)
              \<lparr>events := [Stolen \<lparr>child = 8192, notify = 16, data = 1\<rparr>,
                          ChildFreed \<lparr>child = 8192, notify = 16, data = 1\<rparr>]\<rparr>)
   \<and> gjs_keep_alive_remove_child
         ((registry_world
               [new_node \<lparr>child = 512, notify = 16, data = 2\<rparr>,
                new_node \<lparr>child = 768, notify = 32, data = 3\<rparr>,
                new_node \<lparr>child = 8192, notify = 16, data = 1\<rparr>] False False)
              \<lparr>events := [Stolen \<lparr>child = 8192, notify = 16, data = 1\<rparr>]\<rparr>)
         4096 16 256 1
     = Inr ((registry_world
               [new_node \<lparr>child = 512, notify = 16, data = 2\<rparr>,
                new_node \<lparr>child = 768, notify = 32, data = 3\<rparr>,
                new_node \<lparr>child = 8192, notify = 16, data = 1\<rparr>] False False)
              \<lparr>events := [Stolen \<lparr>child = 8192, notify = 16, data = 1\<rparr>]\<rparr>)"
proof -
  let ?tr = "\<lambda>a :: ptr. if a = 256 then 8192 else a"
  let ?c = "\<lparr>child = 256, notify = 16, data = 1\<rparr>"
  let ?w1 = "(registry_world
               [new_node \<lparr>child = 512, notify = 16, data = 2\<rparr>,
                new_node \<lparr>child = 768, notify = 32, data = 3\<rparr>,
                new_node \<lparr>child = 8192, notify = 16, data = 1\<rparr>] False False)
              \<lparr>events := [Stolen \<lparr>child = 8192, notify = 16, data = 1\<rparr>]\<rparr>"
  have nz: "(4096 :: ptr) \<noteq> 0" by simp
  have p: "privs (registry_world scenario False False) 4096
     = Some \<lparr>children = scenario, inside_finalize = False, inside_trace = False\<rparr>"
    by (simp add: registry_world_def)
  have ok: "table_ok scenario"
    by (simp add: scenario_def new_node_def table_ok_def)
  have mem: "?c \<in> entry_set scenario"
    by (simp add: scenario_def new_node_def entry_set_def)
  have vac: "address_vacated ?tr scenario ?c"
    by (simp add: address_vacated_def scenario_def new_node_def entry_set_def)
  have run: "keep_alive_trace ?tr (registry_world scenario False False) 4096 = Inr ?w1"
    by (simp add: keep_alive_trace_def registry_world_def scenario_def reinsert_def
        g_hash_table_replace_def value_destroy_def new_node_def node_matches_def
        child_equal_def Let_def)
  have "\<exists>w1. keep_alive_trace ?tr (registry_world scenario False False) 4096 = Inr w1
          \<and> gjs_keep_alive_remove_child w1 4096 16 256 1 = Inr w1"
    using trace_relocates_moved_entry
      [of 4096 "registry_world scenario False False"
        "\<lparr>children = scenario, inside_finalize = False, inside_trace = False\<rparr>" ?c ?tr]
      p ok mem vac
    by simp blast
  then obtain w1 where w1: "keep_alive_trace ?tr (registry_world scenario False False) 4096 = Inr w1"
    and stale: "gjs_keep_alive_remove_child w1 4096 16 256 1 = Inr w1"
    by blast
  from w1 run have eq: "w1 = ?w1" by simp
  have fresh: "gjs_keep_alive_remove_child ?w1 4096 16 8192 1
     = Inr ((registry_world
               [new_node \<lparr>child = 512, notify = 16, data = 2\<rparr>,
                new_node \<lparr>child = 768, notify = 32, data = 3\<rparr>] False False)
              \<lparr>events := [Stolen \<lparr>child = 8192, notify = 16, data = 1\<rparr>,
                          ChildFreed \<lparr>child = 8192, notify = 16, data = 1\<rparr>]\<rparr>)"
    by (simp add: gjs_keep_alive_remove_child_def registry_world_def g_hash_table_remove_def
        value_destroy_def child_free_def new_node_def node_matches_def child_equal_def Let_def)
  from nz p ok mem vac run fresh stale [unfolded eq] show ?thesis
    by simp
qed

text \<open>
  Two entries with the same notifier and data; the tracer moves the first away from address
  256 and the second to it. The remove with the stale handle 256 of the first entry then
  removes the second entry.
\<close>

theorem stale_handle_remove_counterexample:
  "keep_alive_trace (\<lambda>a. if a = 256 then 768 else if a = 512 then 256 else a)
     (registry_world [new_node \<lparr>child = 256, notify = 16, data = 1\<rparr>,
                      new_node \<lparr>child = 512, notify = 16, data = 1\<rparr>] False False) 4096
     = Inr ((registry_world [new_node \<lparr>child = 256, notify = 16, data = 1\<rparr>,
                             new_node \<lparr>child = 768, notify = 16, data = 1\<rparr>] False False)
              \<lparr>events := [Stolen \<lparr>child = 768, notify = 16, data = 1\<rparr>,
                          Stolen \<lparr>child = 256, notify = 16, data = 1\<rparr>]\<rparr>)
   \<and> gjs_keep_alive_remove_child
        ((registry_world [new_node \<lparr>child = 256, notify = 16, data = 1\<rparr>,
                          new_node \<lparr>child = 768, notify = 16, data = 1\<rparr>] False False)
              \<lparr>events := [Stolen \<lparr>child = 768, notify = 16, data = 1\<rparr>,
                          Stolen \<lparr>child = 256, notify = 16, data = 1\<rparr>]\<rparr>)
        4096 16 256 1
     = Inr ((registry_world [new_node \<lparr>child = 768, notify = 16, data = 1\<rparr>] False False)
              \<lparr>events := [Stolen \<lparr>child = 768, notify = 16, data = 1\<rparr>,
                          Stolen \<lparr>child = 256, notify = 16, data = 1\<rparr>,
                          ChildFreed \<lparr>child = 256, notify = 16, data = 1\<rparr>]\<rparr>)"
  by (simp add: keep_alive_trace_def gjs_keep_alive_remove_child_def registry_world_def
      reinsert_def g_hash_table_replace_def g_hash_table_remove_def value_destroy_def
      child_free_def new_node_def node_matches_def child_equal_def Let_def)

section \<open>The registry of a context\<close>

text \<open>
  C4: \<open>gjs_keep_alive_remove_global_child\<close> on a context whose slot holds no registry
  goes through \<open>gjs_keep_alive_get_global\<close>, which creates one; with the engine
  answering every call the function returns normally, the new and empty registry stored
  in the slot. The \<^verbatim>\<open>g_error\<close> for the missing registry is never reached.
\<close>

theorem remove_global_child_creates_registry:
  assumes "context \<noteq> 0" and "slot w context = None"
    and "import_global js \<noteq> 0" and "has_property js = Some found"
    and "found \<or> init_class js \<noteq> 0"
    and "new_object js \<noteq> 0" and "privs w (new_object js) = None"
  shows "gjs_keep_alive_remove_global_child js w context n obj d =
           Inr (w\<lparr>privs := (privs w)(new_object js \<mapsto> new_priv),
                 slot := (slot w)(context \<mapsto> new_object js)\<rparr>)"
  using assms
  by (auto simp: gjs_keep_alive_remove_global_child_def gjs_keep_alive_get_global_def
      gjs_keep_alive_get_global_if_exists_def gjs_keep_alive_create_def gjs_keep_alive_new_def
      gjs_keep_alive_remove_child_def g_hash_table_remove_def new_priv_def value_destroy_def
      Let_def)

theorem remove_global_child_creates_registry_witness:
  "gjs_keep_alive_get_global_if_exists
     \<lparr>privs = Map.empty, slot = Map.empty, events = [], fatal_criticals = False\<rparr> 64 = 0
   \<and> gjs_keep_alive_remove_global_child
       \<lparr>import_global = 8192, has_property = Some False, init_class = 12288, new_object = 4096\<rparr>
       \<lparr>privs = Map.empty, slot = Map.empty, events = [], fatal_criticals = False\<rparr>
       64 16 256 1
     = Inr \<lparr>privs = [4096 \<mapsto> new_priv], slot = [64 \<mapsto> 4096], events = [],
            fatal_criticals = False\<rparr>"
  using remove_global_child_creates_registry
    [of 64 "\<lparr>privs = Map.empty, slot = Map.empty, events = [], fatal_criticals = False\<rparr>"
        "\<lparr>import_global = 8192, has_property = Some False, init_class = 12288, new_object = 4096\<rparr>"
        False 16 256 1]
  by (simp add: gjs_keep_alive_get_global_if_exists_def)

end
